theory Spec2Isabelle
  imports Main
begin

section \<open>Values, handlers and the store\<close>

text \<open>
  The engine (compose.ts, middlewareEngine.ts) is higher-order JavaScript: it receives handler
  functions, keeps them in arrays and calls them.  Handlers are therefore data of the model.
  A handler body is a list of statements; the statements are the things a handler can do that
  the engine can observe: change the context, throw, await its continuation \<open>next()\<close>,
  register a handler on an engine, and write to an array it holds a reference to.  Every call of
  the continuation is awaited, either plainly, so that its rejection ends the handler, or inside
  a \<open>try\<close> with an empty \<open>catch\<close>, so that the handler goes on after it.

  Arrays are mutable objects with identity, so they live in a store indexed by addresses: the
  registry of an engine and the array given to \<open>composeMiddlewares\<close> may be the same
  object.
\<close>

type_synonym addr = nat

datatype err = TypeError string | Error string

record MiddlewareEngine =
  middlewares :: addr

datatype 'c act =
    Effect "'c \<Rightarrow> 'c"
  | Throw err
  | Use MiddlewareEngine "'c val"
  | Assign addr nat "'c val"
  | SetLength addr nat
and 'c stmt =
    Act "'c act"
  | AwaitNext
  | TryAwaitNext
and 'c val =
    Undefined
  | Str string
  | Arr addr
  | Fn "'c stmt list"

text \<open>
  A promise settles as resolved or as rejected with an error.  What ran before a rejection is
  not undone, so a run returns the state it reached in both cases.
\<close>

datatype outcome = Resolved | Rejected err

text \<open>
  The calls the engine makes: \<open>Enter i\<close> for \<open>middleware(ctx, next)\<close> at position
  \<open>i\<close>, \<open>Terminal\<close> for \<open>finalHandler()\<close>.
\<close>

datatype event = Enter nat | Terminal

text \<open>
  The state: the context object; the store, with the next unused address; \<open>currentIndex\<close>,
  the variable of \<open>composed\<close> that its \<open>dispatch\<close> reads and writes; and the calls made
  so far.  The context is of any type: the engine passes it on and never looks into it.
\<close>

record 'c state =
  ctx :: 'c
  heap :: "addr \<Rightarrow> 'c val list"
  fresh :: addr
  currentIndex :: int
  trace :: "event list"

type_synonym 'c result = "outcome \<times> 'c state"

text \<open>\<open>typeof v === 'function'\<close>.\<close>

fun callable :: "'c val \<Rightarrow> bool" where
  "callable (Fn body) = True"
| "callable v = False"

text \<open>\<open>!v\<close>: \<open>undefined\<close> and the empty string are falsy, arrays and functions are not.\<close>

fun falsy :: "'c val \<Rightarrow> bool" where
  "falsy Undefined = True"
| "falsy (Str s) = (s = [])"
| "falsy v = False"

text \<open>\<open>xs[i]\<close>: reading past the end of an array gives \<open>undefined\<close>.\<close>

definition at_index :: "'c val list \<Rightarrow> nat \<Rightarrow> 'c val" where
  "at_index xs i = (if i < length xs then xs ! i else Undefined)"

text \<open>\<open>xs[i] = v\<close>: writing past the end extends the array, the gap reads \<open>undefined\<close>.\<close>

definition assign :: "'c val list \<Rightarrow> nat \<Rightarrow> 'c val \<Rightarrow> 'c val list" where
  "assign xs i v =
     (if i < length xs then xs[i := v]
      else xs @ replicate (i - length xs) Undefined @ [v])"

text \<open>\<open>xs.length = n\<close>.\<close>

definition set_length :: "'c val list \<Rightarrow> nat \<Rightarrow> 'c val list" where
  "set_length xs n = take n xs @ replicate (n - length xs) Undefined"

text \<open>A new array object: \<open>[...xs]\<close>.\<close>

definition alloc :: "'c val list \<Rightarrow> 'c state \<Rightarrow> addr \<times> 'c state" where
  "alloc xs s = (fresh s, s\<lparr>heap := (heap s)(fresh s := xs), fresh := Suc (fresh s)\<rparr>)"

section \<open>MiddlewareEngine: constructor, use, getMiddlewares\<close>

definition new_MiddlewareEngine ::
  "'c val list option \<Rightarrow> 'c state \<Rightarrow> MiddlewareEngine \<times> 'c state" where
  "new_MiddlewareEngine options s =
     (case alloc (case options of Some ms \<Rightarrow> ms | None \<Rightarrow> []) s of
        (a, s') \<Rightarrow> (\<lparr>middlewares = a\<rparr>, s'))"

definition use :: "MiddlewareEngine \<Rightarrow> 'c val \<Rightarrow> 'c state \<Rightarrow> 'c result" where
  "use this middleware s =
     (if \<not> callable middleware
      then (Rejected (TypeError ''Middleware must be a function''), s)
      else (Resolved,
            s\<lparr>heap := (heap s)(middlewares this := heap s (middlewares this) @ [middleware])\<rparr>))"

definition getMiddlewares :: "MiddlewareEngine \<Rightarrow> 'c state \<Rightarrow> addr \<times> 'c state" where
  "getMiddlewares this s = alloc (heap s (middlewares this)) s"

section \<open>Running handler bodies\<close>

fun exec_act :: "'c act \<Rightarrow> 'c state \<Rightarrow> 'c result" where
  "exec_act (Effect g) s = (Resolved, s\<lparr>ctx := g (ctx s)\<rparr>)"
| "exec_act (Throw e) s = (Rejected e, s)"
| "exec_act (Use engine v) s = use engine v s"
| "exec_act (Assign a i v) s = (Resolved, s\<lparr>heap := (heap s)(a := assign (heap s a) i v)\<rparr>)"
| "exec_act (SetLength a n) s = (Resolved, s\<lparr>heap := (heap s)(a := set_length (heap s a) n)\<rparr>)"

text \<open>
  The body of a handler, run with its continuation \<open>next\<close>.  A rejected step ends the body
  with that rejection; the state reached so far stays.  \<open>TryAwaitNext\<close> is
  \<open>try { await next() } catch (e) { }\<close>: the body goes on however the continuation
  settled.  \<open>None\<close> is a run that does not end.
\<close>

fun exec_body ::
  "('c state \<Rightarrow> 'c result option) \<Rightarrow> 'c stmt list \<Rightarrow> 'c state \<Rightarrow> 'c result option" where
  "exec_body next [] s = Some (Resolved, s)"
| "exec_body next (Act a # rest) s =
     (case exec_act a s of
        (Rejected e, s') \<Rightarrow> Some (Rejected e, s')
      | (Resolved, s') \<Rightarrow> exec_body next rest s')"
| "exec_body next (AwaitNext # rest) s =
     (case next s of
        None \<Rightarrow> None
      | Some (Rejected e, s') \<Rightarrow> Some (Rejected e, s')
      | Some (Resolved, s') \<Rightarrow> exec_body next rest s')"
| "exec_body next (TryAwaitNext # rest) s =
     (case next s of
        None \<Rightarrow> None
      | Some (r, s') \<Rightarrow> exec_body next rest s')"

text \<open>The terminal operation \<open>finalHandler\<close> has no continuation.\<close>

fun exec_final :: "'c act list \<Rightarrow> 'c state \<Rightarrow> 'c result" where
  "exec_final [] s = (Resolved, s)"
| "exec_final (a # rest) s =
     (case exec_act a s of
        (Rejected e, s') \<Rightarrow> (Rejected e, s')
      | (Resolved, s') \<Rightarrow> exec_final rest s')"

section \<open>composeMiddlewares\<close>

text \<open>
  The inner function \<open>dispatch(index)\<close> of \<open>composed\<close>.  \<open>mws\<close> is the array the closure
  holds, read on every call.  The first argument bounds the depth of the calls; \<open>trace\<close>
  records which handler was called and when the terminal operation was, and nothing reads it.
\<close>

primrec dispatch ::
  "nat \<Rightarrow> addr \<Rightarrow> 'c act list option \<Rightarrow> nat \<Rightarrow> 'c state \<Rightarrow> 'c result option" where
  "dispatch 0 mws finalHandler index s = None"
| "dispatch (Suc fuel) mws finalHandler index s =
     (if int index \<le> currentIndex s
      then Some (Rejected (Error ''next() called multiple times''), s)
      else
        let s1 = s\<lparr>currentIndex := int index\<rparr>;
            middleware = at_index (heap s1 mws) index
        in if index = length (heap s1 mws)
           then (case finalHandler of
                   Some body \<Rightarrow> Some (exec_final body (s1\<lparr>trace := trace s1 @ [Terminal]\<rparr>))
                 | None \<Rightarrow> Some (Resolved, s1))
           else if falsy middleware then Some (Resolved, s1)
           else (case middleware of
                   Fn body \<Rightarrow>
                     exec_body (dispatch fuel mws finalHandler (Suc index)) body
                       (s1\<lparr>trace := trace s1 @ [Enter index]\<rparr>)
                 | _ \<Rightarrow> Some (Rejected (TypeError ''middleware is not a function''), s1)))"

definition composed ::
  "addr \<Rightarrow> 'c act list option \<Rightarrow> nat \<Rightarrow> 'c state \<Rightarrow> 'c result option" where
  "composed mws finalHandler fuel s = dispatch fuel mws finalHandler 0 (s\<lparr>currentIndex := - 1\<rparr>)"

definition composeMiddlewares ::
  "'c val \<Rightarrow> 'c act list option \<Rightarrow> 'c state \<Rightarrow>
     err + (nat \<Rightarrow> 'c state \<Rightarrow> 'c result option)" where
  "composeMiddlewares mws finalHandler s =
     (case mws of
        Arr a \<Rightarrow>
          if list_all callable (heap s a) then Inr (composed a finalHandler)
          else Inl (TypeError ''Middleware must be a function'')
      | _ \<Rightarrow> Inl (TypeError ''Middlewares must be an array''))"

section \<open>MiddlewareEngine.dispatch\<close>

definition engine_dispatch ::
  "nat \<Rightarrow> MiddlewareEngine \<Rightarrow> 'c act list option \<Rightarrow> 'c val list option \<Rightarrow> 'c state \<Rightarrow>
     'c result option" where
  "engine_dispatch fuel this finalHandler extraMiddlewares s =
     (case (case extraMiddlewares of
              Some extra \<Rightarrow> alloc (heap s (middlewares this) @ extra) s
            | None \<Rightarrow> (middlewares this, s)) of
        (allMiddlewares, s1) \<Rightarrow>
          (case composeMiddlewares (Arr allMiddlewares) finalHandler s1 of
             Inl e \<Rightarrow> Some (Rejected e, s1)
           | Inr run \<Rightarrow> run fuel s1))"

section \<open>Vocabulary of the properties\<close>

text \<open>
  The specification names two kinds of failure of the engine.  The code raises a
  \<open>TypeError\<close> for the first and an \<open>Error\<close> with a fixed message for the second.
\<close>

fun InvalidArgument :: "err \<Rightarrow> bool" where
  "InvalidArgument (TypeError msg) = True"
| "InvalidArgument (Error msg) = False"

definition ProtocolViolation :: err where
  "ProtocolViolation = Error ''next() called multiple times''"

text \<open>What \<open>composeMiddlewares\<close> accepts: an array whose elements are all functions.\<close>

fun well_formed :: "'c val \<Rightarrow> 'c state \<Rightarrow> bool" where
  "well_formed (Arr a) s = list_all callable (heap s a)"
| "well_formed v s = False"

text \<open>
  Handlers of the onion shape: code before the continuation, \<open>await next()\<close>, code after it.
  The code on either side is a list of changes to the context, run in order.
\<close>

fun run :: "('c \<Rightarrow> 'c) list \<Rightarrow> 'c \<Rightarrow> 'c" where
  "run [] c = c"
| "run (g # gs) c = run gs (g c)"

definition effects :: "('c \<Rightarrow> 'c) list \<Rightarrow> 'c stmt list" where
  "effects gs = map (\<lambda>g. Act (Effect g)) gs"

definition around :: "('c \<Rightarrow> 'c) list \<times> ('c \<Rightarrow> 'c) list \<Rightarrow> 'c val" where
  "around p = Fn (effects (fst p) @ AwaitNext # effects (snd p))"

text \<open>The code before the continuation of a whole chain, first handler first.\<close>

definition pres :: "(('c \<Rightarrow> 'c) list \<times> ('c \<Rightarrow> 'c) list) list \<Rightarrow> ('c \<Rightarrow> 'c) list" where
  "pres ps = concat (map fst ps)"

text \<open>The code after the continuation of a whole chain, last handler first.\<close>

definition posts :: "(('c \<Rightarrow> 'c) list \<times> ('c \<Rightarrow> 'c) list) list \<Rightarrow> ('c \<Rightarrow> 'c) list" where
  "posts ps = concat (rev (map snd ps))"

text \<open>
  A terminal operation that only changes the context: as \<open>finalHandler\<close>, as a function
  on contexts, and as what it adds to the trace.
\<close>

definition final_code :: "('c \<Rightarrow> 'c) list option \<Rightarrow> 'c act list option" where
  "final_code T = map_option (map Effect) T"

fun final_run :: "('c \<Rightarrow> 'c) list option \<Rightarrow> 'c \<Rightarrow> 'c" where
  "final_run None c = c"
| "final_run (Some gs) c = run gs c"

fun final_event :: "'a option \<Rightarrow> event list" where
  "final_event None = []"
| "final_event (Some t) = [Terminal]"

text \<open>The handlers at positions \<open>i, \<dots>, i + n - 1\<close> called in this order, then perhaps
  the terminal operation.\<close>

definition entered :: "nat \<Rightarrow> nat \<Rightarrow> bool \<Rightarrow> event list" where
  "entered i n t = map Enter [i..<i + n] @ (if t then [Terminal] else [])"

text \<open>The state with the array at one address emptied, and two runs that end alike, with the
  same outcome and the same state but for the array at that address.\<close>

definition forget :: "addr \<Rightarrow> 'c state \<Rightarrow> 'c state" where
  "forget a s = s\<lparr>heap := (heap s)(a := [])\<rparr>"

definition same_but :: "addr \<Rightarrow> 'c result option \<Rightarrow> 'c result option \<Rightarrow> bool" where
  "same_but a x y = (map_option (apsnd (forget a)) x = map_option (apsnd (forget a)) y)"

text \<open>What a caller sees of a run: how the promise settled, the context, the calls made.\<close>

definition observed :: "'c result option \<Rightarrow> (outcome \<times> 'c \<times> event list) option" where
  "observed x = map_option (\<lambda>(r, s). (r, ctx s, trace s)) x"

subsection \<open>Concrete handlers of the test suite\<close>

definition log :: "string \<Rightarrow> string list \<Rightarrow> string list" where
  "log x l = l @ [x]"

definition logs :: "string \<Rightarrow> (string list \<Rightarrow> string list) list \<times> (string list \<Rightarrow> string list) list" where
  "logs name = ([log (name @ ''-before'')], [log (name @ ''-after'')])"

definition logger :: "string \<Rightarrow> string list val" where
  "logger name = around (logs name)"

text \<open>A handler that registers another handler on an engine while a dispatch is running.\<close>

definition late :: "string list val" where
  "late = Fn [Act (Effect (log ''late'')), AwaitNext]"

definition registering :: "MiddlewareEngine \<Rightarrow> string list val" where
  "registering engine = Fn [Act (Use engine late), AwaitNext]"

definition init :: "string list state" where
  "init = \<lparr>ctx = [], heap = (\<lambda>a. []), fresh = 0, currentIndex = - 1, trace = []\<rparr>"

text \<open>A store with one array, at address 0.\<close>

definition holding :: "string list val list \<Rightarrow> string list state" where
  "holding xs = init\<lparr>heap := (heap init)(0 := xs), fresh := 1\<rparr>"

section \<open>Basic facts\<close>

lemma run_append: "run (fs @ gs) c = run gs (run fs c)"
  by (induction fs arbitrary: c) simp_all

lemma exec_body_effects:
  "exec_body nxt (effects gs @ rest) s = exec_body nxt rest (s\<lparr>ctx := run gs (ctx s)\<rparr>)"
  by (induction gs arbitrary: s) (simp_all add: effects_def)

lemma exec_final_effects:
  "exec_final (map Effect gs @ rest) s = exec_final rest (s\<lparr>ctx := run gs (ctx s)\<rparr>)"
  by (induction gs arbitrary: s) simp_all

lemma exec_body_only_effects:
  "exec_body nxt (effects gs) s = Some (Resolved, s\<lparr>ctx := run gs (ctx s)\<rparr>)"
  using exec_body_effects [of nxt gs "[]" s] by simp

lemma exec_final_only_effects:
  "exec_final (map Effect gs) s = (Resolved, s\<lparr>ctx := run gs (ctx s)\<rparr>)"
  using exec_final_effects [of gs "[]" s] by simp



lemma callable_around [simp]: "callable (around p)"
  by (simp add: around_def)

lemma list_all_callable_around [simp]: "list_all callable (map around ps)"
  by (induction ps) simp_all

lemma exec_act_frame:
  "exec_act a s = (r, s') \<Longrightarrow>
   trace s' = trace s \<and> currentIndex s' = currentIndex s \<and> fresh s' = fresh s"
  by (cases a) (auto simp: use_def split: if_splits)

lemma exec_final_frame:
  "exec_final body s = (r, s') \<Longrightarrow>
   trace s' = trace s \<and> currentIndex s' = currentIndex s \<and> fresh s' = fresh s"
proof (induction body arbitrary: s)
  case Nil
  then show ?case by simp
next
  case (Cons a body)
  obtain r1 s1 where a: "exec_act a s = (r1, s1)" by (cases "exec_act a s")
  show ?case
  proof (cases r1)
    case Resolved
    with Cons.prems a have "exec_final body s1 = (r, s')" by simp
    from Cons.IH [OF this] exec_act_frame [OF a] show ?thesis by simp
  next
    case (Rejected e)
    with Cons.prems a exec_act_frame [OF a] show ?thesis by simp
  qed
qed

lemma exec_body_acts:
  "exec_body nxt (map Act acts) s = Some (exec_final acts s)"
  by (induction acts arbitrary: s) (auto split: prod.splits outcome.splits)

section \<open>Single steps of \<open>dispatch\<close>\<close>

lemma dispatch_currentIndex:
  "c < int i \<Longrightarrow> currentIndex s < int i \<Longrightarrow>
   dispatch f mws fin i (s\<lparr>currentIndex := c\<rparr>) = dispatch f mws fin i s"
  by (cases f) simp_all

lemma dispatch_handler:
  "currentIndex s < int i \<Longrightarrow> heap s mws = xs @ Fn body # rest \<Longrightarrow> i = length xs \<Longrightarrow>
   dispatch (Suc f) mws fin i s =
     exec_body (dispatch f mws fin (Suc i)) body
       (s\<lparr>currentIndex := int i, trace := trace s @ [Enter i]\<rparr>)"
  by (simp add: Let_def at_index_def)

lemma dispatch_missing:
  "currentIndex s < int index \<Longrightarrow> index < length (heap s mws) \<Longrightarrow> falsy (heap s mws ! index) \<Longrightarrow>
   dispatch (Suc f) mws fin index s = Some (Resolved, s\<lparr>currentIndex := int index\<rparr>)"
  by (simp add: Let_def at_index_def)


lemma dispatch_terminal:
  "currentIndex s < int (length (heap s mws)) \<Longrightarrow>
   dispatch (Suc f) mws (final_code T) (length (heap s mws)) s =
     Some (Resolved, s\<lparr>currentIndex := int (length (heap s mws)), ctx := final_run T (ctx s),
                       trace := trace s @ final_event T\<rparr>)"
  by (cases T; cases s) (simp_all add: final_code_def Let_def exec_final_only_effects)

lemma engine_dispatch_None:
  "engine_dispatch fuel this fin None s =
     (if list_all callable (heap s (middlewares this)) then composed (middlewares this) fin fuel s
      else Some (Rejected (TypeError ''Middleware must be a function''), s))"
  by (simp add: engine_dispatch_def composeMiddlewares_def)

lemma engine_dispatch_Some:
  "engine_dispatch fuel this fin (Some E) s =
     (if list_all callable (heap s (middlewares this) @ E)
      then composed (fresh s) fin fuel
             (s\<lparr>heap := (heap s)(fresh s := heap s (middlewares this) @ E), fresh := Suc (fresh s)\<rparr>)
      else Some (Rejected (TypeError ''Middleware must be a function''),
             s\<lparr>heap := (heap s)(fresh s := heap s (middlewares this) @ E), fresh := Suc (fresh s)\<rparr>))"
  by (simp add: engine_dispatch_def composeMiddlewares_def alloc_def)

lemma dispatch_stops:
  assumes "currentIndex s < int i" and "i < length (heap s mws)" and "heap s mws ! i = Fn (map Act acts)"
  shows "dispatch (Suc f) mws fin i s =
      Some (exec_final acts (s\<lparr>currentIndex := int i, trace := trace s @ [Enter i]\<rparr>))
    \<and> trace (snd (exec_final acts (s\<lparr>currentIndex := int i, trace := trace s @ [Enter i]\<rparr>)))
        = trace s @ [Enter i]"
proof -
  have "dispatch (Suc f) mws fin i s =
      Some (exec_final acts (s\<lparr>currentIndex := int i, trace := trace s @ [Enter i]\<rparr>))"
    using assms by (simp add: Let_def at_index_def exec_body_acts)
  moreover have "trace (snd (exec_final acts (s\<lparr>currentIndex := int i, trace := trace s @ [Enter i]\<rparr>)))
        = trace s @ [Enter i]"
    using exec_final_frame [of acts "s\<lparr>currentIndex := int i, trace := trace s @ [Enter i]\<rparr>"]
    by (cases "exec_final acts (s\<lparr>currentIndex := int i, trace := trace s @ [Enter i]\<rparr>)") simp
  ultimately show ?thesis by simp
qed

section \<open>Chains of onion-shaped handlers\<close>

lemma take_drop_Cons:
  assumes "take (Suc n) (drop k xs) = y # ys"
  shows "k < length xs \<and> xs ! k = y \<and> take n (drop (Suc k) xs) = ys"
proof -
  from assms have ne: "drop k xs \<noteq> []" by auto
  then have k: "k < length xs" by simp
  then have "drop k xs = xs ! k # drop (Suc k) xs" by (simp add: Cons_nth_drop_Suc)
  with assms k show ?thesis by simp
qed

lemma upt_shift: "[k..<Suc (k + n)] = k # [Suc k..<Suc (k + n)]"
  by (simp add: upt_conv_Cons del: upt_Suc)

lemma dispatch_around_prefix:
  "currentIndex s < int k \<Longrightarrow> take (length ps) (drop k (heap s mws)) = map around ps \<Longrightarrow>
   dispatch (length ps + f) mws fin k s =
     (case dispatch f mws fin (k + length ps)
             (s\<lparr>ctx := run (pres ps) (ctx s), trace := trace s @ map Enter [k..<k + length ps]\<rparr>) of
        None \<Rightarrow> None
      | Some (Resolved, s') \<Rightarrow> Some (Resolved, s'\<lparr>ctx := run (posts ps) (ctx s')\<rparr>)
      | Some (Rejected e, s') \<Rightarrow> Some (Rejected e, s'))"
proof (induction ps arbitrary: k s)
  case Nil
  show ?case
    by (simp add: pres_def posts_def split: option.splits outcome.splits prod.splits)
next
  case (Cons p ps)
  from Cons.prems(2) have k: "k < length (heap s mws)" and hk: "heap s mws ! k = around p"
    and rest: "take (length ps) (drop (Suc k) (heap s mws)) = map around ps"
    using take_drop_Cons [of "length ps" k "heap s mws" "around p" "map around ps"] by simp_all
  let ?s1 = "s\<lparr>currentIndex := int k, trace := trace s @ [Enter k], ctx := run (fst p) (ctx s)\<rparr>"
  have ih: "dispatch (length ps + f) mws fin (Suc k) ?s1 =
     (case dispatch f mws fin (Suc k + length ps)
             (?s1\<lparr>ctx := run (pres ps) (ctx ?s1), trace := trace ?s1 @ map Enter [Suc k..<Suc k + length ps]\<rparr>) of
        None \<Rightarrow> None
      | Some (Resolved, s') \<Rightarrow> Some (Resolved, s'\<lparr>ctx := run (posts ps) (ctx s')\<rparr>)
      | Some (Rejected e, s') \<Rightarrow> Some (Rejected e, s'))"
    using rest by (intro Cons.IH) simp_all
  let ?t = "s\<lparr>ctx := run (pres (p # ps)) (ctx s), trace := trace s @ map Enter [k..<k + length (p # ps)]\<rparr>"
  have eq: "?s1\<lparr>ctx := run (pres ps) (ctx ?s1), trace := trace ?s1 @ map Enter [Suc k..<Suc k + length ps]\<rparr>
      = ?t\<lparr>currentIndex := int k\<rparr>"
    by (cases s) (simp add: pres_def run_append upt_shift del: upt_Suc)
  have inner: "dispatch f mws fin (Suc k + length ps)
             (?s1\<lparr>ctx := run (pres ps) (ctx ?s1), trace := trace ?s1 @ map Enter [Suc k..<Suc k + length ps]\<rparr>)
      = dispatch f mws fin (k + length (p # ps)) ?t"
    unfolding eq using Cons.prems(1) dispatch_currentIndex [of "int k" "Suc k + length ps" ?t f mws fin]
    by simp
  have "dispatch (length (p # ps) + f) mws fin k s =
      exec_body (dispatch (length ps + f) mws fin (Suc k)) (effects (fst p) @ AwaitNext # effects (snd p))
        (s\<lparr>currentIndex := int k, trace := trace s @ [Enter k]\<rparr>)"
    using Cons.prems(1) k hk by (simp add: at_index_def around_def Let_def)
  also have "\<dots> = (case dispatch (length ps + f) mws fin (Suc k) ?s1 of
        None \<Rightarrow> None
      | Some (Resolved, s') \<Rightarrow> Some (Resolved, s'\<lparr>ctx := run (snd p) (ctx s')\<rparr>)
      | Some (Rejected e, s') \<Rightarrow> Some (Rejected e, s'))"
    using exec_body_effects [of _ "snd p" "[]"]
    by (simp add: exec_body_effects split: option.splits outcome.splits prod.splits)
  finally show ?case
    unfolding ih inner
    by (simp add: posts_def run_append split: option.splits outcome.splits prod.splits)
qed

lemma composed_around_prefix:
  assumes "heap s mws = map around ps @ rest" and "length ps \<le> fuel"
  shows "composed mws fin fuel s =
     (case dispatch (fuel - length ps) mws fin (length ps)
             (s\<lparr>currentIndex := - 1, ctx := run (pres ps) (ctx s),
                 trace := trace s @ map Enter [0..<length ps]\<rparr>) of
        None \<Rightarrow> None
      | Some (Resolved, s') \<Rightarrow> Some (Resolved, s'\<lparr>ctx := run (posts ps) (ctx s')\<rparr>)
      | Some (Rejected e, s') \<Rightarrow> Some (Rejected e, s'))"
proof -
  have "dispatch (length ps + (fuel - length ps)) mws fin 0 (s\<lparr>currentIndex := - 1\<rparr>) =
     (case dispatch (fuel - length ps) mws fin (0 + length ps)
             (s\<lparr>currentIndex := - 1\<rparr>\<lparr>ctx := run (pres ps) (ctx (s\<lparr>currentIndex := - 1\<rparr>)),
                 trace := trace (s\<lparr>currentIndex := - 1\<rparr>) @ map Enter [0..<0 + length ps]\<rparr>) of
        None \<Rightarrow> None
      | Some (Resolved, s') \<Rightarrow> Some (Resolved, s'\<lparr>ctx := run (posts ps) (ctx s')\<rparr>)
      | Some (Rejected e, s') \<Rightarrow> Some (Rejected e, s'))"
    using assms(1) by (intro dispatch_around_prefix) simp_all
  with assms(2) show ?thesis by (simp add: composed_def)
qed

lemma composed_onion:
  assumes "heap s mws = map around ps" and "length ps < fuel"
  shows "composed mws (final_code T) fuel s =
     Some (Resolved,
       s\<lparr>currentIndex := int (length ps),
         ctx := run (posts ps) (final_run T (run (pres ps) (ctx s))),
         trace := trace s @ map Enter [0..<length ps] @ final_event T\<rparr>)"
proof -
  obtain f where f: "fuel - length ps = Suc f" using assms(2) by (cases "fuel - length ps") simp_all
  let ?s = "s\<lparr>currentIndex := - 1, ctx := run (pres ps) (ctx s), trace := trace s @ map Enter [0..<length ps]\<rparr>"
  have "dispatch (Suc f) mws (final_code T) (length (heap ?s mws)) ?s =
     Some (Resolved, ?s\<lparr>currentIndex := int (length (heap ?s mws)), ctx := final_run T (ctx ?s),
                       trace := trace ?s @ final_event T\<rparr>)"
    by (rule dispatch_terminal) simp
  then show ?thesis
    using assms composed_around_prefix [of s mws ps "[]" fuel "final_code T"] f
    by simp
qed


lemma composed_stops:
  assumes "heap s mws = map around ps @ Fn (effects body) # rest" and "length ps < fuel"
  shows "composed mws fin fuel s =
     Some (Resolved,
       s\<lparr>currentIndex := int (length ps),
         ctx := run (posts ps) (run body (run (pres ps) (ctx s))),
         trace := trace s @ map Enter [0..<Suc (length ps)]\<rparr>)"
proof -
  obtain f where f: "fuel - length ps = Suc f" using assms(2) by (cases "fuel - length ps") simp_all
  let ?s = "s\<lparr>currentIndex := - 1, ctx := run (pres ps) (ctx s), trace := trace s @ map Enter [0..<length ps]\<rparr>"
  have "dispatch (Suc f) mws fin (length ps) ?s =
     exec_body (dispatch f mws fin (Suc (length ps))) (effects body)
       (?s\<lparr>currentIndex := int (length ps), trace := trace ?s @ [Enter (length ps)]\<rparr>)"
    using assms(1) by (intro dispatch_handler [where xs = "map around ps" and rest = rest]) simp_all
  then show ?thesis
    using assms composed_around_prefix [of s mws ps "Fn (effects body) # rest" fuel fin] f
    by (simp add: exec_body_only_effects)
qed



lemma composed_missing:
  assumes "heap s mws = map around ps @ v # rest" and "falsy v" and "length ps < fuel"
  shows "composed mws fin fuel s =
     Some (Resolved,
       s\<lparr>currentIndex := int (length ps),
         ctx := run (posts ps) (run (pres ps) (ctx s)),
         trace := trace s @ map Enter [0..<length ps]\<rparr>)"
proof -
  obtain f where f: "fuel - length ps = Suc f" using assms(3) by (cases "fuel - length ps") simp_all
  let ?s = "s\<lparr>currentIndex := - 1, ctx := run (pres ps) (ctx s), trace := trace s @ map Enter [0..<length ps]\<rparr>"
  have "dispatch (Suc f) mws fin (length ps) ?s = Some (Resolved, ?s\<lparr>currentIndex := int (length ps)\<rparr>)"
    using assms(1,2) by (intro dispatch_missing) (simp_all add: nth_append)
  then show ?thesis
    using assms composed_around_prefix [of s mws ps "v # rest" fuel fin] f
    by simp
qed


section \<open>The calls of any run\<close>

lemma body_blocked:
  "int (Suc i) \<le> currentIndex s \<Longrightarrow>
   exec_body (dispatch f mws fin (Suc i)) body s = Some (r, s') \<Longrightarrow>
   trace s' = trace s \<and> currentIndex s' = currentIndex s"
proof (induction body arbitrary: s)
  case Nil
  then show ?case by simp
next
  case (Cons x body)
  show ?case
  proof (cases x)
    case (Act a)
    obtain r1 s1 where a: "exec_act a s = (r1, s1)" by (cases "exec_act a s")
    show ?thesis
    proof (cases r1)
      case Resolved
      with Cons.prems Act a have "exec_body (dispatch f mws fin (Suc i)) body s1 = Some (r, s')"
        by simp
      moreover have "int (Suc i) \<le> currentIndex s1"
        using Cons.prems(1) exec_act_frame [OF a] by simp
      ultimately have "trace s' = trace s1 \<and> currentIndex s' = currentIndex s1"
        by (intro Cons.IH)
      with exec_act_frame [OF a] show ?thesis by simp
    next
      case (Rejected e)
      with Cons.prems Act a exec_act_frame [OF a] show ?thesis by simp
    qed
  next
    case AwaitNext
    with Cons.prems show ?thesis
      by (cases f) simp_all
  next
    case TryAwaitNext
    show ?thesis
    proof (cases f)
      case 0
      with Cons.prems TryAwaitNext show ?thesis by simp
    next
      case (Suc g)
      with Cons.prems(1) have "dispatch f mws fin (Suc i) s = Some (Rejected ProtocolViolation, s)"
        by (simp add: ProtocolViolation_def)
      with Cons.prems(2) TryAwaitNext
      have "exec_body (dispatch f mws fin (Suc i)) body s = Some (r, s')" by simp
      from Cons.IH [OF Cons.prems(1) this] show ?thesis .
    qed
  qed
qed

lemma entered_Suc: "Enter i # entered (Suc i) n t = entered i (Suc n) t"
  by (simp add: entered_def upt_shift del: upt_Suc)

lemma entered_0: "entered i 0 False = []" "entered i 0 True = [Terminal]"
  by (simp_all add: entered_def)

lemma entered_empty: "\<exists>n t. entered i n t = []"
  using entered_0(1) by blast

lemma body_trace:
  assumes IH: "\<And>i s r s'. dispatch f mws fin i s = Some (r, s') \<Longrightarrow>
     (int i \<le> currentIndex s \<and> s' = s \<and> r = Rejected ProtocolViolation)
     \<or> (currentIndex s < int i \<and> int i \<le> currentIndex s'
         \<and> (\<exists>n t. trace s' = trace s @ entered i n t))"
  shows "exec_body (dispatch f mws fin (Suc i)) body s = Some (r, s') \<Longrightarrow>
      currentIndex s \<le> currentIndex s' \<and> (\<exists>n t. trace s' = trace s @ entered (Suc i) n t)"
proof (induction body arbitrary: s)
  case Nil
  then show ?case by (simp add: entered_empty)
next
  case (Cons x body)
  show ?case
  proof (cases x)
    case (Act a)
    obtain r1 s1 where a: "exec_act a s = (r1, s1)" by (cases "exec_act a s")
    show ?thesis
    proof (cases r1)
      case Resolved
      with Cons.prems Act a have "exec_body (dispatch f mws fin (Suc i)) body s1 = Some (r, s')"
        by simp
      from Cons.IH [OF this] exec_act_frame [OF a] show ?thesis by simp
    next
      case (Rejected e)
      with Cons.prems Act a have "s' = s1" by simp
      with exec_act_frame [OF a] show ?thesis by (simp add: entered_empty)
    qed
  next
    case AwaitNext
    with Cons.prems obtain r1 s1 where n: "dispatch f mws fin (Suc i) s = Some (r1, s1)"
      by (cases "dispatch f mws fin (Suc i) s") auto
    from IH [OF n] show ?thesis
    proof
      assume "int (Suc i) \<le> currentIndex s \<and> s1 = s \<and> r1 = Rejected ProtocolViolation"
      with Cons.prems AwaitNext n have "s' = s" by simp
      then show ?thesis by (simp add: entered_empty)
    next
      assume passed: "currentIndex s < int (Suc i) \<and> int (Suc i) \<le> currentIndex s1
        \<and> (\<exists>n t. trace s1 = trace s @ entered (Suc i) n t)"
      show ?thesis
      proof (cases r1)
        case Resolved
        with Cons.prems AwaitNext n
        have "exec_body (dispatch f mws fin (Suc i)) body s1 = Some (r, s')" by simp
        with passed have "trace s' = trace s1 \<and> currentIndex s' = currentIndex s1"
          by (intro body_blocked) simp_all
        with passed show ?thesis by simp
      next
        case (Rejected e)
        with Cons.prems AwaitNext n have "s' = s1" by simp
        with passed show ?thesis by simp
      qed
    qed
  next
    case TryAwaitNext
    with Cons.prems obtain r1 s1 where n: "dispatch f mws fin (Suc i) s = Some (r1, s1)"
      by (cases "dispatch f mws fin (Suc i) s") auto
    with Cons.prems TryAwaitNext
    have rest: "exec_body (dispatch f mws fin (Suc i)) body s1 = Some (r, s')" by simp
    from IH [OF n] show ?thesis
    proof
      assume "int (Suc i) \<le> currentIndex s \<and> s1 = s \<and> r1 = Rejected ProtocolViolation"
      with rest Cons.IH [of s] show ?thesis by simp
    next
      assume passed: "currentIndex s < int (Suc i) \<and> int (Suc i) \<le> currentIndex s1
        \<and> (\<exists>n t. trace s1 = trace s @ entered (Suc i) n t)"
      with rest have "trace s' = trace s1 \<and> currentIndex s' = currentIndex s1"
        by (intro body_blocked) simp_all
      with passed show ?thesis by simp
    qed
  qed
qed

lemma dispatch_trace:
  "dispatch f mws fin i s = Some (r, s') \<Longrightarrow>
     (int i \<le> currentIndex s \<and> s' = s \<and> r = Rejected ProtocolViolation)
     \<or> (currentIndex s < int i \<and> int i \<le> currentIndex s'
         \<and> (\<exists>n t. trace s' = trace s @ entered i n t))"
proof (induction f arbitrary: i s r s')
  case 0
  then show ?case by simp
next
  case (Suc f)
  show ?case
  proof (cases "int i \<le> currentIndex s")
    case True
    with Suc.prems show ?thesis by (simp add: ProtocolViolation_def)
  next
    case False
    let ?s1 = "s\<lparr>currentIndex := int i\<rparr>"
    have same: "s' = ?s1 \<Longrightarrow> ?thesis"
      using False by (simp add: entered_empty)
    show ?thesis
    proof (cases "i = length (heap s mws)")
      case True
      show ?thesis
      proof (cases fin)
        case None
        with Suc.prems False True have "s' = ?s1" by (simp add: Let_def)
        then show ?thesis by (rule same)
      next
        case (Some body)
        with Suc.prems False True
        have "exec_final body (?s1\<lparr>trace := trace s @ [Terminal]\<rparr>) = (r, s')"
          by (simp add: Let_def)
        from exec_final_frame [OF this]
        have "trace s' = trace s @ entered i 0 True" "currentIndex s' = int i"
          by (simp_all add: entered_0)
        with False show ?thesis by auto
      qed
    next
      case notlen: False
      show ?thesis
      proof (cases "falsy (at_index (heap s mws) i)")
        case True
        with Suc.prems False notlen have "s' = ?s1" by (simp add: Let_def)
        then show ?thesis by (rule same)
      next
        case truthy: False
        show ?thesis
        proof (cases "at_index (heap s mws) i")
          case (Fn b)
          with Suc.prems False notlen truthy
          have "exec_body (dispatch f mws fin (Suc i)) b (?s1\<lparr>trace := trace s @ [Enter i]\<rparr>) = Some (r, s')"
            by (simp add: Let_def)
          from body_trace [OF Suc.IH this] obtain n t where
            "int i \<le> currentIndex s'" "trace s' = (trace s @ [Enter i]) @ entered (Suc i) n t"
            by auto
          then have "int i \<le> currentIndex s'" "trace s' = trace s @ entered i (Suc n) t"
            by (simp_all flip: entered_Suc)
          with False show ?thesis by auto
        next
          case Undefined
          with truthy show ?thesis by simp
        next
          case (Str x)
          with Suc.prems False notlen truthy have "s' = ?s1" by (simp add: Let_def)
          then show ?thesis by (rule same)
        next
          case (Arr x)
          with Suc.prems False notlen truthy have "s' = ?s1" by (simp add: Let_def)
          then show ?thesis by (rule same)
        qed
      qed
    qed
  qed
qed

lemma composed_trace:
  assumes "composed mws fin fuel s = Some (r, s')"
  shows "\<exists>n t. trace s' = trace s @ entered 0 n t"
  using dispatch_trace [OF assms [unfolded composed_def]] by simp

section \<open>Runs that do not read an array\<close>

lemma forget_sel [simp]:
  "ctx (forget a s) = ctx s" "fresh (forget a s) = fresh s"
  "currentIndex (forget a s) = currentIndex s" "trace (forget a s) = trace s"
  "b \<noteq> a \<Longrightarrow> heap (forget a s) b = heap s b"
  by (simp_all add: forget_def)

lemma forget_eqD:
  assumes "forget a s = forget a s'"
  shows "ctx s = ctx s'" "fresh s = fresh s'" "currentIndex s = currentIndex s'"
    "trace s = trace s'" "b \<noteq> a \<Longrightarrow> heap s b = heap s' b"
  using arg_cong [OF assms, of ctx] arg_cong [OF assms, of fresh]
    arg_cong [OF assms, of currentIndex] arg_cong [OF assms, of trace]
    arg_cong [OF assms, of "\<lambda>s. heap s b"]
  by simp_all

lemma forget_eqI:
  assumes "ctx s = ctx s'" "fresh s = fresh s'" "currentIndex s = currentIndex s'"
    "trace s = trace s'" "\<And>b. b \<noteq> a \<Longrightarrow> heap s b = heap s' b"
  shows "forget a s = forget a s'"
proof -
  have "(heap s)(a := []) = (heap s')(a := [])"
    using assms(5) by (auto simp: fun_eq_iff)
  with assms show ?thesis
    by (cases s; cases s') (simp add: forget_def)
qed


lemma exec_act_forget:
  assumes "forget a s = forget a s'"
  shows "fst (exec_act x s) = fst (exec_act x s')
    \<and> forget a (snd (exec_act x s)) = forget a (snd (exec_act x s'))"
proof -
  note eq = forget_eqD [OF assms]
  show ?thesis
  proof (cases x)
    case (Effect g)
    then show ?thesis using eq by (auto intro!: forget_eqI)
  next
    case (Throw e)
    then show ?thesis using assms by simp
  next
    case (Use engine v)
    then show ?thesis using eq assms by (auto simp: use_def intro!: forget_eqI)
  next
    case (Assign b i v)
    then show ?thesis using eq by (auto intro!: forget_eqI)
  next
    case (SetLength b n)
    then show ?thesis using eq by (auto intro!: forget_eqI)
  qed
qed

lemma exec_final_forget:
  "forget a s = forget a s' \<Longrightarrow>
   fst (exec_final body s) = fst (exec_final body s')
    \<and> forget a (snd (exec_final body s)) = forget a (snd (exec_final body s'))"
proof (induction body arbitrary: s s')
  case Nil
  then show ?case by simp
next
  case (Cons x body)
  from exec_act_forget [OF Cons.prems, of x] Cons.IH [of "snd (exec_act x s)" "snd (exec_act x s')"]
  show ?case
    by (cases "exec_act x s"; cases "exec_act x s'") (auto split: outcome.splits)
qed

lemma exec_body_forget:
  assumes nxt: "\<And>s s'. forget a s = forget a s' \<Longrightarrow> same_but a (nxt s) (nxt s')"
  shows "forget a s = forget a s' \<Longrightarrow> same_but a (exec_body nxt body s) (exec_body nxt body s')"
proof (induction body arbitrary: s s')
  case Nil
  then show ?case by (simp add: same_but_def)
next
  case (Cons x body)
  show ?case
  proof (cases x)
    case (Act act)
    from exec_act_forget [OF Cons.prems, of act] Cons.IH [of "snd (exec_act act s)" "snd (exec_act act s')"]
    show ?thesis using Act
      by (cases "exec_act act s"; cases "exec_act act s'") (auto split: outcome.splits simp: same_but_def)
  next
    case AwaitNext
    from nxt [OF Cons.prems] have n: "same_but a (nxt s) (nxt s')" .
    show ?thesis
    proof (cases "nxt s")
      case None
      with n AwaitNext show ?thesis by (simp add: same_but_def)
    next
      case (Some p)
      obtain r1 s1 where p: "p = (r1, s1)" by (cases p)
      with n Some obtain s1' where n': "nxt s' = Some (r1, s1')" and f: "forget a s1 = forget a s1'"
        by (cases "nxt s'") (auto simp: same_but_def)
      show ?thesis
        using Some p n' f AwaitNext Cons.IH [OF f]
        by (cases r1) (simp_all add: same_but_def)
    qed
  next
    case TryAwaitNext
    from nxt [OF Cons.prems] have n: "same_but a (nxt s) (nxt s')" .
    show ?thesis
    proof (cases "nxt s")
      case None
      with n TryAwaitNext show ?thesis by (simp add: same_but_def)
    next
      case (Some p)
      obtain r1 s1 where p: "p = (r1, s1)" by (cases p)
      with n Some obtain s1' where n': "nxt s' = Some (r1, s1')" and f: "forget a s1 = forget a s1'"
        by (cases "nxt s'") (auto simp: same_but_def)
      show ?thesis
        using Some p n' f TryAwaitNext Cons.IH [OF f]
        by simp
    qed
  qed
qed

lemma dispatch_forget:
  "mws \<noteq> a \<Longrightarrow> forget a s = forget a s' \<Longrightarrow>
   same_but a (dispatch f mws fin i s) (dispatch f mws fin i s')"
proof (induction f arbitrary: i s s')
  case 0
  show ?case by (simp add: same_but_def)
next
  case (Suc f)
  note eq = forget_eqD [OF Suc.prems(2)]
  have h: "heap s mws = heap s' mws" using eq(5) Suc.prems(1) by simp
  have f1: "forget a (s\<lparr>currentIndex := int i\<rparr>) = forget a (s'\<lparr>currentIndex := int i\<rparr>)"
    using eq by (auto intro!: forget_eqI)
  have f2: "forget a (s\<lparr>currentIndex := int i, trace := trace s @ ev\<rparr>)
      = forget a (s'\<lparr>currentIndex := int i, trace := trace s' @ ev\<rparr>)" for ev
    using eq by (auto intro!: forget_eqI)
  show ?case
  proof (cases "int i \<le> currentIndex s")
    case True
    then show ?thesis using eq(3) Suc.prems(2) by (simp add: same_but_def)
  next
    case False
    show ?thesis
    proof (cases "i = length (heap s mws)")
      case True
      show ?thesis
      proof (cases fin)
        case None
        then show ?thesis using False True eq(3) h f1 by (simp add: same_but_def Let_def)
      next
        case (Some body)
        from exec_final_forget [OF f2 [of "[Terminal]"], of body]
        show ?thesis using False True eq(3,4) h Some
          by (simp add: same_but_def Let_def prod_eq_iff)
      qed
    next
      case notlen: False
      show ?thesis
      proof (cases "at_index (heap s mws) i")
        case (Fn body)
        have "same_but a
           (exec_body (dispatch f mws fin (Suc i)) body (s\<lparr>currentIndex := int i, trace := trace s @ [Enter i]\<rparr>))
           (exec_body (dispatch f mws fin (Suc i)) body (s'\<lparr>currentIndex := int i, trace := trace s' @ [Enter i]\<rparr>))"
          using Suc.IH [OF Suc.prems(1)] f2 by (intro exec_body_forget)
        then show ?thesis using False notlen eq(3) h Fn by (simp add: Let_def)
      qed (use False notlen eq(3) h f1 in \<open>simp_all add: same_but_def Let_def\<close>)
    qed
  qed
qed

section \<open>Registration\<close>

text \<open>
  C10.  \<open>use\<close> with an argument that is not a function throws before it touches the registry:
  the state after the failed call is the state before it, so the registered list, what
  \<open>getMiddlewares\<close> returns and every later \<open>dispatch\<close> are as if the call had not happened.
\<close>

theorem use_failure_atomic:
  "\<not> callable m \<Longrightarrow>
     use this m s = (Rejected (TypeError ''Middleware must be a function''), s)
     \<and> heap (snd (use this m s)) (middlewares this) = heap s (middlewares this)
     \<and> getMiddlewares this (snd (use this m s)) = getMiddlewares this s
     \<and> engine_dispatch fuel this fin extra (snd (use this m s)) = engine_dispatch fuel this fin extra s"
  by (simp add: use_def)

theorem use_failure_atomic_witness:
  "\<not> callable (Str ''not a function'' :: string list val)
   \<and> use \<lparr>middlewares = 0\<rparr> (Str ''not a function'') (snd (use \<lparr>middlewares = 0\<rparr> (logger ''m1'') init))
       = (Rejected (TypeError ''Middleware must be a function''), snd (use \<lparr>middlewares = 0\<rparr> (logger ''m1'') init))
   \<and> heap (snd (use \<lparr>middlewares = 0\<rparr> (Str ''not a function'') (snd (use \<lparr>middlewares = 0\<rparr> (logger ''m1'') init)))) 0
       = [logger ''m1'']"
  using use_failure_atomic [of "Str ''not a function''" "\<lparr>middlewares = 0\<rparr>"
      "snd (use \<lparr>middlewares = 0\<rparr> (logger ''m1'') init)" 0 None None]
  by (simp add: use_def logger_def around_def init_def logs_def)

text \<open>
  C7.  \<open>composeMiddlewares\<close> fails, with a \<open>TypeError\<close> and without returning a composed
  function, exactly when its argument is not an array or holds an element that is not a function;
  \<open>use\<close> fails with a \<open>TypeError\<close> exactly when its argument is not a function.  Otherwise
  \<open>composeMiddlewares\<close> returns the composed function and \<open>use\<close> returns normally.
\<close>

theorem validation_iff:
  "(\<exists>e. composeMiddlewares v fin s = Inl e \<and> InvalidArgument e) = (\<not> well_formed v s)
   \<and> (\<exists>a. v = Arr a \<and> composeMiddlewares v fin s = Inr (composed a fin)) = well_formed v s
   \<and> (\<exists>e. fst (use this m s) = Rejected e \<and> InvalidArgument e) = (\<not> callable m)
   \<and> (fst (use this m s) = Resolved) = callable m"
  by (cases v) (auto simp: composeMiddlewares_def use_def)

theorem validation_iff_witness:
  "(\<exists>e. composeMiddlewares (Str ''not a sequence'') None init = Inl e \<and> InvalidArgument e)
   \<and> (\<exists>e. composeMiddlewares (Arr 0) None
            (init\<lparr>heap := (heap init)(0 := [logger ''fn'', Str ''not a function''])\<rparr>) = Inl e
          \<and> InvalidArgument e)
   \<and> composeMiddlewares (Arr 0) None (init\<lparr>heap := (heap init)(0 := [logger ''fn''])\<rparr>)
       = Inr (composed 0 None)
   \<and> (\<exists>e. fst (use \<lparr>middlewares = 0\<rparr> (Str ''not a function'') init) = Rejected e \<and> InvalidArgument e)
   \<and> fst (use \<lparr>middlewares = 0\<rparr> (logger ''fn'') init) = Resolved"
  using validation_iff [of "Str ''not a sequence''" None init "\<lparr>middlewares = 0\<rparr>" "Str ''not a function''"]
    validation_iff [of "Arr 0" None "init\<lparr>heap := (heap init)(0 := [logger ''fn'', Str ''not a function''])\<rparr>"
      "\<lparr>middlewares = 0\<rparr>" "logger ''fn''"]
    validation_iff [of "Arr 0" None "init\<lparr>heap := (heap init)(0 := [logger ''fn''])\<rparr>"
      "\<lparr>middlewares = 0\<rparr>" "logger ''fn''"]
    validation_iff [of "Arr 0" None init "\<lparr>middlewares = 0\<rparr>" "logger ''fn''"]
  by (simp add: logger_def around_def)

section \<open>Order of execution\<close>

text \<open>
  C2.  One run of the composed function calls the handlers in increasing position order and
  unwinds them in decreasing order, and calls the terminal operation at most once, after the code
  before the continuation of the last handler and before the code after it.

  First part: when every handler is of the onion shape (any code on the context, then
  \<open>await next()\<close>, then any code on the context) and the terminal operation, if there is one,
  is any code on the context, the run resolves, and the final context is the initial one after
  the code before the continuation of handlers \<open>0, 1, \<dots>\<close> in this order, then the terminal
  operation, then the code after the continuation of the handlers in the reverse order; each
  handler was called once and the terminal operation once, last.

  Second part, for any array, any handlers and any terminal operation: the calls made by a run
  that ends are those of the handlers at positions \<open>0, 1, \<dots>, n - 1\<close>, in this order and once
  each, followed by at most one call of the terminal operation.
\<close>

theorem composed_onion_order:
  "(heap s mws = map around ps \<and> length ps < fuel \<longrightarrow>
      composed mws (final_code T) fuel s =
        Some (Resolved,
          s\<lparr>currentIndex := int (length ps),
            ctx := run (posts ps) (final_run T (run (pres ps) (ctx s))),
            trace := trace s @ map Enter [0..<length ps] @ final_event T\<rparr>))
   \<and> (composed mws' fin fuel' s0 = Some (r, s') \<longrightarrow>
        (\<exists>n t. trace s' = trace s0 @ entered 0 n t))"
  using composed_onion [of s mws ps fuel T] composed_trace [of mws' fin fuel' s0 r s']
  by blast

theorem composed_onion_order_witness:
  "observed (composed 0 (final_code (Some [log ''final-handler''])) 4
       (holding [logger ''m1'', logger ''m2'', logger ''m3'']))
     = Some (Resolved,
         [''m1-before'', ''m2-before'', ''m3-before'', ''final-handler'',
          ''m3-after'', ''m2-after'', ''m1-after''],
         [Enter 0, Enter 1, Enter 2, Terminal])
   \<and> (\<exists>n t. [Enter 0, Enter 1, Enter 2, Terminal] = entered 0 n t)"
proof -
  let ?s = "holding [logger ''m1'', logger ''m2'', logger ''m3'']"
  let ?T = "Some [log ''final-handler'']"
  let ?s' = "?s\<lparr>currentIndex := 3,
            ctx := [''m1-before'', ''m2-before'', ''m3-before'', ''final-handler'',
                    ''m3-after'', ''m2-after'', ''m1-after''],
            trace := [Enter 0, Enter 1, Enter 2, Terminal]\<rparr>"
  have h: "heap ?s 0 = map around [logs ''m1'', logs ''m2'', logs ''m3''] \<and> length [logs ''m1'', logs ''m2'', logs ''m3''] < 4"
    by (simp add: holding_def logger_def)
  have run: "composed 0 (final_code ?T) 4 ?s = Some (Resolved, ?s')"
    using composed_onion_order [THEN conjunct1, of ?s 0 "[logs ''m1'', logs ''m2'', logs ''m3'']" 4 ?T] h
    by (simp add: holding_def init_def pres_def posts_def logs_def log_def upt_rec numeral_2_eq_2)
  have "\<exists>n t. trace ?s' = trace ?s @ entered 0 n t"
    using composed_onion_order [THEN conjunct2, of 0 "final_code ?T" 4 ?s Resolved ?s'] run by blast
  then show ?thesis using run by (simp add: observed_def holding_def init_def)
qed

text \<open>
  C5.  A handler that returns without calling its continuation ends the chain there.  First
  part: with onion shaped handlers before it, whatever the later positions of the array hold and
  whatever the terminal operation is, the run resolves, the handlers up to that one are the only
  ones called, the terminal operation is not called, and the handlers before it run their code
  after the continuation in the reverse order.  Second part, in any state and for any handler
  body without \<open>next()\<close>: the step that calls this handler does what the body does and calls
  nothing else.
\<close>

theorem short_circuit:
  "(heap s mws = map around ps @ Fn (effects body) # rest \<and> length ps < fuel \<longrightarrow>
      composed mws fin fuel s =
        Some (Resolved,
          s\<lparr>currentIndex := int (length ps),
            ctx := run (posts ps) (run body (run (pres ps) (ctx s))),
            trace := trace s @ map Enter [0..<Suc (length ps)]\<rparr>))
   \<and> (currentIndex s < int i \<and> i < length (heap s mws) \<and> heap s mws ! i = Fn (map Act acts) \<longrightarrow>
      dispatch (Suc f) mws fin i s =
        Some (exec_final acts (s\<lparr>currentIndex := int i, trace := trace s @ [Enter i]\<rparr>))
      \<and> trace (snd (exec_final acts (s\<lparr>currentIndex := int i, trace := trace s @ [Enter i]\<rparr>)))
          = trace s @ [Enter i])"
  using composed_stops [of s mws ps body rest fuel fin] dispatch_stops [of s i mws acts f fin]
  by blast

theorem short_circuit_witness:
  "observed (composed 0 (Some [Effect (log ''final'')]) 3
       (holding [logger ''m0'', Fn (effects [log ''m1-before'', log ''m1-after'']), logger ''m2'']))
     = Some (Resolved, [''m0-before'', ''m1-before'', ''m1-after'', ''m0-after''], [Enter 0, Enter 1])
   \<and> observed (dispatch 1 0 (Some [Effect (log ''final'')]) 0
       (holding [Fn (map Act [Effect (log ''m1-before''), Effect (log ''m1-after'')]), logger ''m2'']))
     = Some (Resolved, [''m1-before'', ''m1-after''], [Enter 0])"
proof -
  let ?stop = "Fn (effects [log ''m1-before'', log ''m1-after''])"
  let ?s = "holding [logger ''m0'', ?stop, logger ''m2'']"
  let ?T = "Some [Effect (log ''final'')]"
  have h: "heap ?s 0 = map around [logs ''m0''] @ ?stop # [logger ''m2''] \<and> length [logs ''m0''] < 3"
    by (simp add: holding_def logger_def)
  have a: "observed (composed 0 ?T 3 ?s)
     = Some (Resolved, [''m0-before'', ''m1-before'', ''m1-after'', ''m0-after''], [Enter 0, Enter 1])"
    using short_circuit [THEN conjunct1, of ?s 0 "[logs ''m0'']" "[log ''m1-before'', log ''m1-after'']"
        "[logger ''m2'']" 3 ?T] h
    by (simp add: observed_def holding_def init_def pres_def posts_def logs_def log_def upt_rec)
  let ?acts = "[Effect (log ''m1-before''), Effect (log ''m1-after'')]"
  let ?u = "holding [Fn (map Act ?acts), logger ''m2'']"
  have h2: "currentIndex ?u < int 0 \<and> 0 < length (heap ?u 0) \<and> heap ?u 0 ! 0 = Fn (map Act ?acts)"
    by (simp add: holding_def init_def)
  have b: "observed (dispatch 1 0 ?T 0 ?u) = Some (Resolved, [''m1-before'', ''m1-after''], [Enter 0])"
    using short_circuit [THEN conjunct2, of ?u 0 0 ?acts 0 ?T] h2
    by (simp add: observed_def holding_def init_def log_def)
  from a b show ?thesis by simp
qed

section \<open>Misuse of the continuation\<close>




section \<open>Failures\<close>



section \<open>A position without a handler\<close>

text \<open>
  C8.  When the array holds no handler at a position below its length at the time that position
  is dispatched, \<open>dispatch\<close> returns at once: it resolves, changes nothing but the position
  counter, and calls neither a later handler nor the terminal operation.  First part: the step
  itself, in any state.  Second part: the whole run when the handlers before the gap are of the
  onion shape; they unwind as if the chain had ended at the gap.
\<close>

theorem missing_handler_noop:
  "(currentIndex s < int index \<and> index < length (heap s mws) \<and> falsy (heap s mws ! index) \<longrightarrow>
      dispatch (Suc f) mws fin index s = Some (Resolved, s\<lparr>currentIndex := int index\<rparr>))
   \<and> (heap s mws = map around ps @ v # rest \<and> falsy v \<and> length ps < fuel \<longrightarrow>
      composed mws fin fuel s =
        Some (Resolved,
          s\<lparr>currentIndex := int (length ps),
            ctx := run (posts ps) (run (pres ps) (ctx s)),
            trace := trace s @ map Enter [0..<length ps]\<rparr>))"
  using dispatch_missing [of s index mws f fin] composed_missing [of s mws ps v rest fuel fin]
  by blast

theorem missing_handler_noop_witness:
  "composeMiddlewares (Arr 0) (Some [Effect (log ''final'')]) (holding [logger ''m0'', logger ''m1''])
     = Inr (composed 0 (Some [Effect (log ''final'')]))
   \<and> snd (exec_act (Assign 0 1 Undefined) (holding [logger ''m0'', logger ''m1'']))
     = holding [logger ''m0'', Undefined]
   \<and> observed (composed 0 (Some [Effect (log ''final'')]) 3 (holding [logger ''m0'', Undefined]))
     = Some (Resolved, [''m0-before'', ''m0-after''], [Enter 0])
   \<and> dispatch 1 0 (Some [Effect (log ''final'')]) 1 (holding [logger ''m0'', Undefined])
     = Some (Resolved, holding [logger ''m0'', Undefined]\<lparr>currentIndex := 1\<rparr>)"
proof -
  let ?s = "holding [logger ''m0'', Undefined]"
  let ?T = "Some [Effect (log ''final'')]"
  have h: "heap ?s 0 = map around [logs ''m0''] @ Undefined # [] \<and> falsy (Undefined :: string list val)
      \<and> length [logs ''m0''] < 3"
    by (simp add: holding_def logger_def)
  have a: "observed (composed 0 ?T 3 ?s) = Some (Resolved, [''m0-before'', ''m0-after''], [Enter 0])"
    using missing_handler_noop [THEN conjunct2, of ?s 0 "[logs ''m0'']" Undefined "[]" 3 ?T] h
    by (simp add: observed_def holding_def init_def pres_def posts_def logs_def log_def upt_rec)
  have h2: "currentIndex ?s < int 1 \<and> 1 < length (heap ?s 0) \<and> falsy (heap ?s 0 ! 1)"
    by (simp add: holding_def init_def)
  have b: "dispatch 1 0 ?T 1 ?s = Some (Resolved, ?s\<lparr>currentIndex := 1\<rparr>)"
    using missing_handler_noop [THEN conjunct1, of ?s 1 0 0 ?T] h2 by simp
  have c: "composeMiddlewares (Arr 0) ?T (holding [logger ''m0'', logger ''m1'']) = Inr (composed 0 ?T)"
    by (simp add: composeMiddlewares_def holding_def logger_def)
  have d: "snd (exec_act (Assign 0 1 Undefined) (holding [logger ''m0'', logger ''m1''])) = ?s"
    by (simp add: holding_def assign_def)
  from a b c d show ?thesis by simp
qed

section \<open>Dispatch through the engine\<close>

text \<open>
  C6.  With registered handlers \<open>R\<close> and extra handlers \<open>E\<close>, \<open>MiddlewareEngine.dispatch\<close>
  runs the composed function over a new array that holds \<open>R\<close> followed by \<open>E\<close> (first part,
  for any \<open>R\<close> and \<open>E\<close>).  For onion shaped handlers the run is the onion over \<open>R\<close> followed
  by \<open>E\<close>; afterwards the registry still holds \<open>R\<close> only, and a dispatch without extras from
  the state reached runs the onion over \<open>R\<close> alone (second part).
\<close>

theorem dispatch_registered_then_extra:
  assumes "middlewares this < fresh s" and "heap s (middlewares this) = map around rs"
    and "length rs + length es < fuel"
  shows "engine_dispatch fuel this fin (Some E) s =
      (if list_all callable (heap s (middlewares this) @ E)
       then composed (fresh s) fin fuel
             (s\<lparr>heap := (heap s)(fresh s := heap s (middlewares this) @ E), fresh := Suc (fresh s)\<rparr>)
       else Some (Rejected (TypeError ''Middleware must be a function''),
             s\<lparr>heap := (heap s)(fresh s := heap s (middlewares this) @ E), fresh := Suc (fresh s)\<rparr>))
    \<and> (\<exists>s'. engine_dispatch fuel this (final_code T) (Some (map around es)) s = Some (Resolved, s')
          \<and> ctx s' = run (posts (rs @ es)) (final_run T (run (pres (rs @ es)) (ctx s)))
          \<and> trace s' = trace s @ map Enter [0..<length rs + length es] @ final_event T
          \<and> heap s' (middlewares this) = map around rs
          \<and> (\<exists>s''. engine_dispatch fuel this (final_code T) None s' = Some (Resolved, s'')
                \<and> ctx s'' = run (posts rs) (final_run T (run (pres rs) (ctx s')))
                \<and> trace s'' = trace s' @ map Enter [0..<length rs] @ final_event T
                \<and> heap s'' (middlewares this) = map around rs))"
proof -
  let ?s1 = "s\<lparr>heap := (heap s)(fresh s := map around (rs @ es)), fresh := Suc (fresh s)\<rparr>"
  let ?s' = "?s1\<lparr>currentIndex := int (length (rs @ es)),
         ctx := run (posts (rs @ es)) (final_run T (run (pres (rs @ es)) (ctx ?s1))),
         trace := trace ?s1 @ map Enter [0..<length (rs @ es)] @ final_event T\<rparr>"
  let ?s'' = "?s'\<lparr>currentIndex := int (length rs),
         ctx := run (posts rs) (final_run T (run (pres rs) (ctx ?s'))),
         trace := trace ?s' @ map Enter [0..<length rs] @ final_event T\<rparr>"
  have "composed (fresh s) (final_code T) fuel ?s1 = Some (Resolved, ?s')"
    using assms(3) by (intro composed_onion) simp_all
  then have first: "engine_dispatch fuel this (final_code T) (Some (map around es)) s = Some (Resolved, ?s')"
    using assms(2) by (simp add: engine_dispatch_Some)
  have reg: "heap ?s' (middlewares this) = map around rs"
    using assms(1,2) by simp
  have "composed (middlewares this) (final_code T) fuel ?s' = Some (Resolved, ?s'')"
    using assms(3) reg by (intro composed_onion) simp_all
  then have second: "engine_dispatch fuel this (final_code T) None ?s' = Some (Resolved, ?s'')"
    using reg by (simp add: engine_dispatch_None)
  have ne: "middlewares this \<noteq> fresh s" using assms(1) by simp
  have inner: "\<exists>s''. engine_dispatch fuel this (final_code T) None ?s' = Some (Resolved, s'')
                \<and> ctx s'' = run (posts rs) (final_run T (run (pres rs) (ctx ?s')))
                \<and> trace s'' = trace ?s' @ map Enter [0..<length rs] @ final_event T
                \<and> heap s'' (middlewares this) = map around rs"
  proof (intro exI [of _ ?s''] conjI)
    show "engine_dispatch fuel this (final_code T) None ?s' = Some (Resolved, ?s'')" by (rule second)
    show "heap ?s'' (middlewares this) = map around rs" using assms(2) ne by simp
  qed simp_all
  have outer: "\<exists>s'. engine_dispatch fuel this (final_code T) (Some (map around es)) s = Some (Resolved, s')
          \<and> ctx s' = run (posts (rs @ es)) (final_run T (run (pres (rs @ es)) (ctx s)))
          \<and> trace s' = trace s @ map Enter [0..<length rs + length es] @ final_event T
          \<and> heap s' (middlewares this) = map around rs
          \<and> (\<exists>s''. engine_dispatch fuel this (final_code T) None s' = Some (Resolved, s'')
                \<and> ctx s'' = run (posts rs) (final_run T (run (pres rs) (ctx s')))
                \<and> trace s'' = trace s' @ map Enter [0..<length rs] @ final_event T
                \<and> heap s'' (middlewares this) = map around rs)"
  proof (rule exI [of _ ?s'], intro conjI)
    show "engine_dispatch fuel this (final_code T) (Some (map around es)) s = Some (Resolved, ?s')" by (rule first)
    show "heap ?s' (middlewares this) = map around rs" by (rule reg)
    show "\<exists>s''. engine_dispatch fuel this (final_code T) None ?s' = Some (Resolved, s'')
                \<and> ctx s'' = run (posts rs) (final_run T (run (pres rs) (ctx ?s')))
                \<and> trace s'' = trace ?s' @ map Enter [0..<length rs] @ final_event T
                \<and> heap s'' (middlewares this) = map around rs" by (rule inner)
  qed simp_all
  show ?thesis
    using outer engine_dispatch_Some [of fuel this fin E s] by (intro conjI)
qed

theorem dispatch_registered_then_extra_witness:
  "\<exists>s' s''.
     engine_dispatch 5 \<lparr>middlewares = 0\<rparr> (final_code None) (Some (map around [logs ''e1'', logs ''e2'']))
         (holding [logger ''m1'', logger ''m2'']) = Some (Resolved, s')
     \<and> ctx s' = [''m1-before'', ''m2-before'', ''e1-before'', ''e2-before'',
                  ''e2-after'', ''e1-after'', ''m2-after'', ''m1-after'']
     \<and> heap s' 0 = [logger ''m1'', logger ''m2'']
     \<and> engine_dispatch 5 \<lparr>middlewares = 0\<rparr> (final_code None) None s' = Some (Resolved, s'')
     \<and> ctx s'' = ctx s' @ [''m1-before'', ''m2-before'', ''m2-after'', ''m1-after'']
     \<and> trace s'' = [Enter 0, Enter 1, Enter 2, Enter 3, Enter 0, Enter 1]"
proof -
  let ?s = "holding [logger ''m1'', logger ''m2'']"
  have h: "middlewares \<lparr>middlewares = 0\<rparr> < fresh ?s"
    "heap ?s (middlewares \<lparr>middlewares = 0\<rparr>) = map around [logs ''m1'', logs ''m2'']"
    "length [logs ''m1'', logs ''m2''] + length [logs ''e1'', logs ''e2''] < 5"
    by (simp_all add: holding_def logger_def init_def)
  from dispatch_registered_then_extra [OF h, of None "[]" None, THEN conjunct2]
  obtain s' s'' where
    "engine_dispatch 5 \<lparr>middlewares = 0\<rparr> (final_code None) (Some (map around [logs ''e1'', logs ''e2''])) ?s
       = Some (Resolved, s')"
    "ctx s' = run (posts ([logs ''m1'', logs ''m2''] @ [logs ''e1'', logs ''e2'']))
       (final_run None (run (pres ([logs ''m1'', logs ''m2''] @ [logs ''e1'', logs ''e2''])) (ctx ?s)))"
    "trace s' = trace ?s @ map Enter [0..<length [logs ''m1'', logs ''m2''] + length [logs ''e1'', logs ''e2'']] @ final_event None"
    "heap s' (middlewares \<lparr>middlewares = 0\<rparr>) = map around [logs ''m1'', logs ''m2'']"
    "engine_dispatch 5 \<lparr>middlewares = 0\<rparr> (final_code None) None s' = Some (Resolved, s'')"
    "ctx s'' = run (posts [logs ''m1'', logs ''m2'']) (final_run None (run (pres [logs ''m1'', logs ''m2'']) (ctx s')))"
    "trace s'' = trace s' @ map Enter [0..<length [logs ''m1'', logs ''m2'']] @ final_event None"
    by (elim exE conjE) auto
  then show ?thesis
    by (intro exI [of _ s'] exI [of _ s''])
      (simp add: holding_def init_def pres_def posts_def logs_def log_def logger_def upt_rec
        numeral_2_eq_2 numeral_3_eq_3)
qed

text \<open>
  A dispatch that runs over any array but the registry goes on in the same way whether or not
  a handler has just been registered: this is what the copy made for extra handlers gives.
\<close>

lemma dispatch_over_copy_ignores_use:
  assumes "mws \<noteq> middlewares this"
  shows "same_but (middlewares this)
      (dispatch fuel mws fin i (snd (use this m t))) (dispatch fuel mws fin i t)"
  using assms by (intro dispatch_forget) (simp_all add: use_def forget_def)

text \<open>
  C1.  The specification requires every dispatch to run over a snapshot of the registry taken
  at its start, with and without extra handlers, so that a handler registered while a dispatch
  is running never runs in it.  With extra handlers \<open>MiddlewareEngine.dispatch\<close> builds a new
  array, and the run over it does not depend on later registrations (the lemma above).  Without
  them it hands the registry array itself to \<open>composeMiddlewares\<close>, whose \<open>dispatch\<close>
  reads the array and its length at every step.  The theorem runs both paths on one engine
  whose only handler registers a second handler and then awaits its continuation: without
  extras the second handler is called in the dispatch that was already running and writes to
  the context; with an empty list of extras it is not called.
\<close>

theorem late_registration_runs_in_flight:
  "new_MiddlewareEngine (Some [registering \<lparr>middlewares = 0\<rparr>]) init
     = (\<lparr>middlewares = 0\<rparr>, holding [registering \<lparr>middlewares = 0\<rparr>])
   \<and> observed (engine_dispatch 3 \<lparr>middlewares = 0\<rparr> None None (holding [registering \<lparr>middlewares = 0\<rparr>]))
     = Some (Resolved, [''late''], [Enter 0, Enter 1])
   \<and> observed (engine_dispatch 3 \<lparr>middlewares = 0\<rparr> None (Some []) (holding [registering \<lparr>middlewares = 0\<rparr>]))
     = Some (Resolved, [], [Enter 0])"
  by (simp add: observed_def engine_dispatch_None engine_dispatch_Some new_MiddlewareEngine_def
      alloc_def holding_def init_def registering_def late_def composed_def Let_def at_index_def use_def
      log_def eval_nat_numeral)

text \<open>
  C9.  \<open>getMiddlewares\<close> returns a new array with the elements of the registry.  Whatever is
  written to that array afterwards, the registry holds what it held, a later
  \<open>MiddlewareEngine.dispatch\<close> ends with the same outcome and the same state but for the
  returned array itself, and so does every step of a dispatch that is running over any other
  array, in any state.
\<close>

theorem getMiddlewares_defensive_copy:
  assumes "middlewares this < fresh s" and "getMiddlewares this s = (copy, s1)"
  shows "copy \<noteq> middlewares this
    \<and> heap s1 copy = heap s (middlewares this)
    \<and> heap (s1\<lparr>heap := (heap s1)(copy := ys)\<rparr>) (middlewares this) = heap s (middlewares this)
    \<and> same_but copy (engine_dispatch fuel this fin extra (s1\<lparr>heap := (heap s1)(copy := ys)\<rparr>))
         (engine_dispatch fuel this fin extra s1)
    \<and> (mws \<noteq> copy \<longrightarrow>
         same_but copy (dispatch fuel mws fin i (t\<lparr>heap := (heap t)(copy := ys)\<rparr>))
           (dispatch fuel mws fin i t))"
proof -
  from assms have copy: "copy = fresh s" and s1: "s1 = s\<lparr>heap := (heap s)(fresh s := heap s (middlewares this)), fresh := Suc (fresh s)\<rparr>"
    by (auto simp: getMiddlewares_def alloc_def)
  from copy assms(1) have ne: "middlewares this \<noteq> copy" by simp
  let ?m = "s1\<lparr>heap := (heap s1)(copy := ys)\<rparr>"
  have fg: "forget copy (u\<lparr>heap := (heap u)(copy := ys)\<rparr>) = forget copy u" for u :: "'a state"
    by (simp add: forget_def)
  have inflight: "same_but copy (dispatch fuel mws fin i (t\<lparr>heap := (heap t)(copy := ys)\<rparr>))
         (dispatch fuel mws fin i t)" if "mws \<noteq> copy"
    using that fg by (intro dispatch_forget)
  have later: "same_but copy (engine_dispatch fuel this fin extra ?m) (engine_dispatch fuel this fin extra s1)"
  proof (cases extra)
    case None
    have "same_but copy (dispatch fuel (middlewares this) fin 0 (?m\<lparr>currentIndex := - 1\<rparr>))
         (dispatch fuel (middlewares this) fin 0 (s1\<lparr>currentIndex := - 1\<rparr>))"
      using ne by (intro dispatch_forget) (simp_all add: forget_def)
    then show ?thesis using None ne
      by (simp add: engine_dispatch_None composed_def same_but_def forget_def)
  next
    case (Some E)
    let ?a = "?m\<lparr>heap := (heap ?m)(fresh s1 := heap s1 (middlewares this) @ E), fresh := Suc (fresh s1)\<rparr>"
    let ?b = "s1\<lparr>heap := (heap s1)(fresh s1 := heap s1 (middlewares this) @ E), fresh := Suc (fresh s1)\<rparr>"
    have fr: "fresh s1 \<noteq> copy" using copy s1 by simp
    have fab: "forget copy ?a = forget copy ?b"
      using fr by (intro forget_eqI) auto
    then have fab': "forget copy (?a\<lparr>currentIndex := - 1\<rparr>) = forget copy (?b\<lparr>currentIndex := - 1\<rparr>)"
      by (intro forget_eqI) (auto dest: forget_eqD)
    have run: "same_but copy (composed (fresh s1) fin fuel ?a) (composed (fresh s1) fin fuel ?b)"
      unfolding composed_def using fr fab' by (intro dispatch_forget)
    have lhs: "engine_dispatch fuel this fin (Some E) ?m =
        (if list_all callable (heap s1 (middlewares this) @ E) then composed (fresh s1) fin fuel ?a
         else Some (Rejected (TypeError ''Middleware must be a function''), ?a))"
      using ne by (simp add: engine_dispatch_Some)
    have rhs: "engine_dispatch fuel this fin (Some E) s1 =
        (if list_all callable (heap s1 (middlewares this) @ E) then composed (fresh s1) fin fuel ?b
         else Some (Rejected (TypeError ''Middleware must be a function''), ?b))"
      by (simp add: engine_dispatch_Some)
    show ?thesis
      unfolding Some lhs rhs using run fab by (simp add: same_but_def)
  qed
  show ?thesis
    using ne copy s1 later inflight by simp
qed

theorem getMiddlewares_defensive_copy_witness:
  "fst (getMiddlewares \<lparr>middlewares = 0\<rparr> (holding [logger ''m1''])) = 1
   \<and> heap (snd (getMiddlewares \<lparr>middlewares = 0\<rparr> (holding [logger ''m1'']))) 1 = [logger ''m1'']
   \<and> heap (snd (exec_act (Assign 1 1 late) (snd (getMiddlewares \<lparr>middlewares = 0\<rparr> (holding [logger ''m1'']))))) 0
       = [logger ''m1'']
   \<and> same_but 1
        (engine_dispatch 3 \<lparr>middlewares = 0\<rparr> None None
           (snd (exec_act (Assign 1 1 late) (snd (getMiddlewares \<lparr>middlewares = 0\<rparr> (holding [logger ''m1''])))))) 
        (engine_dispatch 3 \<lparr>middlewares = 0\<rparr> None None
           (snd (getMiddlewares \<lparr>middlewares = 0\<rparr> (holding [logger ''m1'']))))
   \<and> same_but 1
        (dispatch 3 0 None 0
           (snd (exec_act (Assign 1 1 late) (snd (getMiddlewares \<lparr>middlewares = 0\<rparr> (holding [logger ''m1'']))))))
        (dispatch 3 0 None 0
           (snd (getMiddlewares \<lparr>middlewares = 0\<rparr> (holding [logger ''m1'']))))"
proof -
  let ?s = "holding [logger ''m1'']"
  let ?s1 = "snd (getMiddlewares \<lparr>middlewares = 0\<rparr> ?s)"
  have h: "middlewares \<lparr>middlewares = 0\<rparr> < fresh ?s" by (simp add: holding_def)
  have g: "getMiddlewares \<lparr>middlewares = 0\<rparr> ?s = (1, ?s1)"
    by (simp add: getMiddlewares_def alloc_def holding_def)
  have m: "snd (exec_act (Assign 1 1 late) ?s1) = ?s1\<lparr>heap := (heap ?s1)(1 := [logger ''m1'', late])\<rparr>"
    by (simp add: getMiddlewares_def alloc_def holding_def assign_def)
  from getMiddlewares_defensive_copy [OF h g,
      where ys = "[logger ''m1'', late]" and fuel = 3 and fin = None and extra = None
        and mws = 0 and i = 0 and t = ?s1]
  show ?thesis
    unfolding m by (simp add: getMiddlewares_def alloc_def holding_def)
qed

end
